theory Spec2Isabelle
  imports Complex_Main
begin

section \<open>The scanner component of src/App.js\<close>

text \<open>
  The component \<open>App\<close> keeps five state variables (\<open>useState\<close>), two refs to DOM
  elements (\<open>useRef\<close>) and uses three browser facilities: the camera
  (\<open>getUserMedia\<close>), interval timers (\<open>setInterval\<close>, \<open>clearInterval\<close>) and the
  console. All of them are fields of one record, passed through every handler.

  Two things of JavaScript are written out rather than hidden:
  \<^item> every handler is a closure of the render that created it. It reads \<open>model\<close> and
    \<open>detectionInterval\<close> as they were in that render (record \<open>scope\<close>), while the refs,
    the state setters, the timers and the camera are shared and always current;
  \<^item> an \<open>await\<close> splits a handler in two: the part before it, and the continuation that
    runs when the awaited promise settles, with other events possibly in between;
  \<^item> a state setter only stores the new value. The page, the refs and the closures
    that the buttons call change when React renders, which is an event of its own.

  The effect that resizes the canvas (lines 94 to 118) and the cleanup that runs when
  the component is removed from the page (lines 85 to 90) are outside this development.
\<close>

subsection \<open>Data\<close>

text \<open>One entry of the list \<open>model.detect\<close> resolves to. The field \<open>class\<close> of the
  source is \<open>pclass\<close> here. A score is a number; the comparison with \<open>0.7\<close> is the
  only operation on it, and on the values a double can take it agrees with the
  comparison of rationals with \<open>7/10\<close>.\<close>

record prediction =
  bbox :: "rat \<times> rat \<times> rat \<times> rat"
  pclass :: string
  score :: rat

text \<open>The video element: its \<open>srcObject\<close> is absent or a stream, which is the list
  of its tracks; a track is an index into the store of tracks of the record \<open>app\<close>.\<close>

record video =
  srcObject :: "nat list option"

text \<open>What a closure of one render sees of the state.\<close>

record scope =
  seen_model :: bool
  seen_detectionInterval :: "nat option"

text \<open>
  \<^item> \<open>scannedItem\<close>, \<open>model\<close> (loaded or \<open>null\<close>), \<open>loading\<close>, \<open>error\<close>,
    \<open>detectionInterval\<close>: the state variables, lines 59 to 63;
  \<^item> \<open>videoRef\<close>, \<open>canvasRef\<close>: the \<open>current\<close> of the two refs, \<open>None\<close> while the
    element is not mounted. The canvas is the list of predictions drawn on it (a box
    and a label each), empty when cleared;
  \<^item> \<open>tracks\<close>: every camera track ever handed out, \<open>True\<close> while it is live;
  \<^item> \<open>intervals\<close>: the active interval timers, each with its handle and the scope of
    the closure it calls; \<open>nextHandle\<close>: the handle the next timer gets;
  \<^item> \<open>console\<close>: what \<open>console.error\<close> has printed;
  \<^item> \<open>awaiting\<close>: the polls suspended at \<open>await model.detect\<close>, each with the scope
    of its closure; \<open>requesting\<close>: the calls of \<open>startDetection\<close> suspended at
    \<open>await getUserMedia\<close>, likewise;
  \<^item> \<open>view\<close>: what the last render put on the page; \<open>rendered\<close>: what the closures
    of the last render see.
\<close>

datatype view = Blank | Scanner | Results

record app =
  scannedItem :: "string option"
  model :: bool
  loading :: bool
  error :: "string option"
  detectionInterval :: "nat option"
  videoRef :: "video option"
  canvasRef :: "prediction list option"
  tracks :: "bool list"
  intervals :: "(nat \<times> scope) list"
  nextHandle :: nat
  console :: "string list"
  awaiting :: "scope list"
  requesting :: "scope list"
  view :: view
  rendered :: scope

datatype media = Stream nat | NoStream string

datatype detection = Predictions "prediction list" | Failure string

datatype event =
    ModelLoaded
  | ModelFailed string
  | Render
  | StartClicked
  | MediaSettled nat media
  | Tick nat
  | Settled nat detection
  | ResetClicked

subsection \<open>JavaScript truthiness of the two tested state variables\<close>

definition truthy_handle :: "nat option \<Rightarrow> bool" where
  "truthy_handle h = (case h of None \<Rightarrow> False | Some n \<Rightarrow> n \<noteq> 0)"

definition truthy_string :: "string option \<Rightarrow> bool" where
  "truthy_string s = (case s of None \<Rightarrow> False | Some l \<Rightarrow> l \<noteq> [])"

subsection \<open>The static dictionary, lines 15 to 56\<close>

text \<open>Each link keeps its type, title and url; the titles of the two projects are
  written without their leading pictograph.\<close>

record link =
  ltype :: string
  ltitle :: string
  url :: string

record project =
  title :: string
  links :: "link list"

definition PROJECTS :: "string \<Rightarrow> project list option" where
  "PROJECTS k =
    (if k = ''bottle'' then Some
       [\<lparr>title = ''Plastic Bottle Projects'',
         links = [\<lparr>ltype = ''video'', ltitle = ''Self-Watering Plant System'',
                    url = ''https://youtu.be/9HIC__5x404''\<rparr>,
                  \<lparr>ltype = ''article'', ltitle = ''25 Brilliant Bottle Recycling Ideas'',
                    url = ''https://www.boredpanda.com/plastic-bottle-recycling-ideas/''\<rparr>]\<rparr>]
     else if k = ''cup'' then Some
       [\<lparr>title = ''Cup Upcycling Ideas'',
         links = [\<lparr>ltype = ''video'', ltitle = ''DIY Pen Holder from Plastic Cups'',
                    url = ''https://www.youtube.com/watch?v=5keP9lY5VII''\<rparr>,
                  \<lparr>ltype = ''article'', ltitle = ''10 Creative Uses for Old Cups'',
                    url = ''https://www.upcyclethat.com/plastic-cup-projects/''\<rparr>]\<rparr>]
     else None)"

subsection \<open>Browser facilities\<close>

definition clearInterval :: "nat \<Rightarrow> app \<Rightarrow> app" where
  "clearInterval h w = w\<lparr>intervals := filter (\<lambda>t. fst t \<noteq> h) (intervals w)\<rparr>"

text \<open>Handles are handed out in increasing order, from 1.\<close>

definition setInterval :: "scope \<Rightarrow> app \<Rightarrow> nat \<times> app" where
  "setInterval sc w =
     (nextHandle w,
      w\<lparr>intervals := intervals w @ [(nextHandle w, sc)], nextHandle := Suc (nextHandle w)\<rparr>)"

definition stop_track :: "nat \<Rightarrow> bool list \<Rightarrow> bool list" where
  "stop_track t ts = ts[t := False]"

definition active_tracks :: "app \<Rightarrow> nat" where
  "active_tracks w = length (filter id (tracks w))"

definition active_timers :: "app \<Rightarrow> nat" where
  "active_timers w = length (intervals w)"

subsection \<open>Rendering, lines 212 to 293\<close>

text \<open>The video and the canvas are on the page exactly while
  \<open>!loading && !scannedItem\<close>; the results, with the reset button, while
  \<open>!loading\<close> and \<open>scannedItem\<close> is truthy. When the first branch is left React
  removes both elements and sets the refs to \<open>null\<close>; when it is entered again the
  elements are new. The closures of a render see the state as it is at that render.
  A render never runs inside a handler: the setters called by a handler take effect on
  the page at the next render.\<close>

definition scanner_view :: "app \<Rightarrow> bool" where
  "scanner_view w = (\<not> loading w \<and> \<not> truthy_string (scannedItem w))"

definition results_view :: "app \<Rightarrow> bool" where
  "results_view w = (\<not> scanner_view w \<and> \<not> loading w)"

definition snapshot :: "app \<Rightarrow> scope" where
  "snapshot w = \<lparr>seen_model = model w, seen_detectionInterval = detectionInterval w\<rparr>"

definition render :: "app \<Rightarrow> app" where
  "render w =
     (if scanner_view w
      then w\<lparr>view := Scanner, rendered := snapshot w,
             videoRef := (case videoRef w of None \<Rightarrow> Some \<lparr>srcObject = None\<rparr> | Some v \<Rightarrow> Some v),
             canvasRef := (case canvasRef w of None \<Rightarrow> Some [] | Some c \<Rightarrow> Some c)\<rparr>
      else w\<lparr>view := (if results_view w then Results else Blank), rendered := snapshot w,
             videoRef := None, canvasRef := None\<rparr>)"

subsection \<open>The handlers\<close>

text \<open>\<open>stopCamera\<close>, lines 197 to 201.\<close>

definition stopCamera :: "app \<Rightarrow> app" where
  "stopCamera w =
     (case videoRef w of
        None \<Rightarrow> w
      | Some v \<Rightarrow>
          (case srcObject v of
             None \<Rightarrow> w
           | Some ts \<Rightarrow> w\<lparr>tracks := fold stop_track ts (tracks w)\<rparr>))"

text \<open>\<open>startDetection\<close>, lines 121 to 139, from the point where \<open>getUserMedia\<close> has
  settled: with a stream of \<open>n\<close> new live tracks, or with a rejection.\<close>

definition startDetection :: "scope \<Rightarrow> media \<Rightarrow> app \<Rightarrow> app" where
  "startDetection sc m w =
     (case m of
        NoStream msg \<Rightarrow> w\<lparr>error := Some (''Camera error: '' @ msg)\<rparr>
      | Stream n \<Rightarrow>
          (let stream = [length (tracks w) ..< length (tracks w) + n];
               w1 = w\<lparr>tracks := tracks w @ replicate n True\<rparr>;
               w2 = (case videoRef w1 of
                       None \<Rightarrow> w1
                     | Some v \<Rightarrow> w1\<lparr>videoRef := Some (v\<lparr>srcObject := Some stream\<rparr>)\<rparr>);
               w3 = (case seen_detectionInterval sc of
                       None \<Rightarrow> w2
                     | Some h \<Rightarrow> if truthy_handle (Some h) then clearInterval h w2 else w2);
               (interval, w4) = setInterval sc w3
           in w4\<lparr>detectionInterval := Some interval\<rparr>))"

text \<open>\<open>drawPredictions\<close>, lines 171 to 195: \<open>canvas.getContext\<close> throws when the ref
  is \<open>null\<close>; otherwise the canvas is cleared and every prediction is drawn.\<close>

definition drawPredictions :: "prediction list \<Rightarrow> app \<Rightarrow> string + app" where
  "drawPredictions predictions w =
     (case canvasRef w of
        None \<Rightarrow> Inl ''TypeError''
      | Some c \<Rightarrow> Inr (w\<lparr>canvasRef := Some predictions\<rparr>))"

definition plasticItems :: "string list" where
  "plasticItems = [''bottle'', ''cup'']"

definition is_plastic :: "prediction \<Rightarrow> bool" where
  "is_plastic pred = (pclass pred \<in> set plasticItems \<and> score pred > 7 / 10)"

text \<open>\<open>detectObjects\<close>, lines 142 to 168, up to the \<open>await\<close>: the guard of line 143,
  then the call of \<open>model.detect\<close>, which leaves the poll suspended.\<close>

definition poll_guard :: "scope \<Rightarrow> app \<Rightarrow> bool" where
  "poll_guard sc w = (seen_model sc \<and> videoRef w \<noteq> None \<and> canvasRef w \<noteq> None)"

definition detectObjects_begin :: "scope \<Rightarrow> app \<Rightarrow> app" where
  "detectObjects_begin sc w =
     (if \<not> poll_guard sc w then w else w\<lparr>awaiting := awaiting w @ [sc]\<rparr>)"

text \<open>\<open>detectObjects\<close> after the \<open>await\<close>: lines 146 to 167.\<close>

definition detectObjects_resume :: "scope \<Rightarrow> detection \<Rightarrow> app \<Rightarrow> app" where
  "detectObjects_resume sc d w =
     (case d of
        Failure err \<Rightarrow> w\<lparr>console := console w @ [''Detection error: '' @ err]\<rparr>
      | Predictions predictions \<Rightarrow>
          (case drawPredictions predictions w of
             Inl err \<Rightarrow> w\<lparr>console := console w @ [''Detection error: '' @ err]\<rparr>
           | Inr w1 \<Rightarrow>
               (case find is_plastic predictions of
                  None \<Rightarrow> w1
                | Some detectedItem \<Rightarrow>
                    (let w2 = w1\<lparr>scannedItem := Some (pclass detectedItem)\<rparr>;
                         w3 = stopCamera w2
                     in case seen_detectionInterval sc of
                          None \<Rightarrow> w3
                        | Some h \<Rightarrow>
                            if truthy_handle (Some h)
                            then (clearInterval h w3)\<lparr>detectionInterval := None\<rparr>
                            else w3))))"

text \<open>\<open>resetScanner\<close>, lines 203 to 210.\<close>

definition resetScanner :: "app \<Rightarrow> app" where
  "resetScanner w =
     (let w1 = w\<lparr>scannedItem := None\<rparr>
      in case canvasRef w1 of None \<Rightarrow> w1 | Some c \<Rightarrow> w1\<lparr>canvasRef := Some []\<rparr>)"

subsection \<open>The component as a transition system\<close>

text \<open>The first render: nothing loaded, nothing on the page (\<open>loading\<close> starts
  \<open>true\<close>).\<close>

definition mount :: app where
  "mount = \<lparr>scannedItem = None, model = False, loading = True, error = None,
            detectionInterval = None, videoRef = None, canvasRef = None, tracks = [],
            intervals = [], nextHandle = 1, console = [], awaiting = [], requesting = [],
            view = Blank,
            rendered = \<lparr>seen_model = False, seen_detectionInterval = None\<rparr>\<rparr>"

text \<open>
  The events, in any order:
  \<^item> \<open>loadModel\<close> (lines 70 to 81) succeeds or fails;
  \<^item> React renders the current state;
  \<^item> the start button (on the page in the scanner view) is clicked: the
    \<open>startDetection\<close> of the last render runs up to \<open>await getUserMedia\<close>;
  \<^item> the \<open>k\<close>-th suspended \<open>startDetection\<close> gets the result of \<open>getUserMedia\<close>;
  \<^item> the timer with handle \<open>h\<close> fires, if it is active, and calls its closure, which
    runs up to \<open>await model.detect\<close>;
  \<^item> the \<open>k\<close>-th suspended poll gets the result of \<open>model.detect\<close>;
  \<^item> the reset button (on the page in the results view) is clicked.
\<close>

definition remove_nth :: "nat \<Rightarrow> 'a list \<Rightarrow> 'a list" where
  "remove_nth k xs = take k xs @ drop (Suc k) xs"

fun step :: "event \<Rightarrow> app \<Rightarrow> app" where
  "step ModelLoaded w = w\<lparr>model := True, loading := False\<rparr>"
| "step (ModelFailed msg) w =
     w\<lparr>error := Some (''Failed to load model: '' @ msg), loading := False\<rparr>"
| "step Render w = render w"
| "step StartClicked w =
     (if view w = Scanner then w\<lparr>requesting := requesting w @ [rendered w]\<rparr> else w)"
| "step (MediaSettled k m) w =
     (if k < length (requesting w)
      then startDetection (requesting w ! k) m
             (w\<lparr>requesting := remove_nth k (requesting w)\<rparr>)
      else w)"
| "step (Tick h) w =
     (case map_of (intervals w) h of
        None \<Rightarrow> w
      | Some sc \<Rightarrow> detectObjects_begin sc w)"
| "step (Settled k d) w =
     (if k < length (awaiting w)
      then detectObjects_resume (awaiting w ! k) d
             (w\<lparr>awaiting := remove_nth k (awaiting w)\<rparr>)
      else w)"
| "step ResetClicked w = (if view w = Results then resetScanner w else w)"

fun run :: "event list \<Rightarrow> app \<Rightarrow> app" where
  "run [] w = w"
| "run (e # es) w = run es (step e w)"

subsection \<open>States and events the properties speak of\<close>

text \<open>The polling events: a timer fires, or a suspended poll gets its result.\<close>

definition is_poll :: "event \<Rightarrow> bool" where
  "is_poll e = (case e of Tick h \<Rightarrow> True | Settled k d \<Rightarrow> True | _ \<Rightarrow> False)"

text \<open>Matched: an item is recorded and the results have been rendered, so the
  video and the canvas are gone.\<close>

definition matched :: "app \<Rightarrow> bool" where
  "matched w = (truthy_string (scannedItem w) \<and> videoRef w = None \<and> canvasRef w = None)"

definition item_ok :: "app \<Rightarrow> bool" where
  "item_ok w = (case scannedItem w of None \<Rightarrow> True | Some l \<Rightarrow> l \<in> set plasticItems)"

text \<open>
  What every reachable state satisfies about timers:
  \<^item> an active handle is positive and has been handed out;
  \<^item> the handle seen by the closure of an active timer or of a suspended poll is no
    longer active (the start that created the timer cleared it);
  \<^item> every closure, and the state, has only seen handles that have been handed out;
  \<^item> a suspended poll or a recorded item comes with an active timer.
\<close>

definition older :: "nat option \<Rightarrow> nat \<Rightarrow> bool" where
  "older d h = (case d of None \<Rightarrow> True | Some i \<Rightarrow> i < h)"

definition handles :: "app \<Rightarrow> nat list" where
  "handles w = map fst (intervals w)"

definition stale :: "app \<Rightarrow> scope \<Rightarrow> bool" where
  "stale w sc =
     (case seen_detectionInterval sc of None \<Rightarrow> True | Some h \<Rightarrow> h \<notin> set (handles w))"

definition timers_ok :: "app \<Rightarrow> bool" where
  "timers_ok w =
     (0 < nextHandle w
      \<and> (\<forall>h \<in> set (handles w). 0 < h \<and> h < nextHandle w)
      \<and> (\<forall>sc \<in> set (map snd (intervals w) @ awaiting w). stale w sc)
      \<and> (\<forall>sc \<in> set (map snd (intervals w) @ awaiting w @ requesting w @ [rendered w]).
            older (seen_detectionInterval sc) (nextHandle w))
      \<and> older (detectionInterval w) (nextHandle w)
      \<and> (intervals w \<noteq> [] \<or> (awaiting w = [] \<and> scannedItem w = None)))"

subsection \<open>Sample inputs\<close>

definition bottle75 :: prediction where
  "bottle75 = \<lparr>bbox = (0, 0, 10, 10), pclass = ''bottle'', score = 3 / 4\<rparr>"

definition bottle70 :: prediction where
  "bottle70 = \<lparr>bbox = (0, 0, 10, 10), pclass = ''bottle'', score = 7 / 10\<rparr>"

definition cup90 :: prediction where
  "cup90 = \<lparr>bbox = (5, 5, 20, 20), pclass = ''cup'', score = 9 / 10\<rparr>"

definition chair95 :: prediction where
  "chair95 = \<lparr>bbox = (0, 0, 10, 10), pclass = ''chair'', score = 19 / 20\<rparr>"

text \<open>The model loads, the start button is clicked and the camera gives one track.\<close>

definition started :: "event list" where
  "started = [ModelLoaded, Render, StartClicked, MediaSettled 0 (Stream 1), Render]"

definition detecting :: app where
  "detecting = run started mount"

text \<open>The model loads and the start button is clicked; the camera has not answered.\<close>

definition asking :: app where
  "asking = run [ModelLoaded, Render, StartClicked] mount"

text \<open>The first timer fires, its poll finds a bottle, and the results are rendered.\<close>

definition first_session :: "event list" where
  "first_session = started @ [Tick 1, Settled 0 (Predictions [bottle75]), Render]"

text \<open>The first timer fires twice before any result arrives.\<close>

definition two_polls :: "event list" where
  "two_polls = started @ [Tick 1, Tick 1]"

text \<open>The first of the two polls finds a bottle and the results are rendered: the
  second poll is still suspended.\<close>

definition overlapping_session :: "event list" where
  "overlapping_session = two_polls @ [Settled 0 (Predictions [bottle75]), Render]"

text \<open>The first session, then a click on the reset button, rendered.\<close>

definition after_reset :: "event list" where
  "after_reset = first_session @ [ResetClicked, Render]"

text \<open>Two sessions that each end in a match and a reset, then a third start.\<close>

definition three_sessions :: "event list" where
  "three_sessions =
     after_reset
     @ [StartClicked, MediaSettled 0 (Stream 1), Render,
        Tick 2, Settled 0 (Predictions [cup90]), Render, ResetClicked, Render,
        StartClicked, MediaSettled 0 (Stream 1), Render]"

text \<open>The start button is clicked twice before the camera answers.\<close>

definition double_click :: "event list" where
  "double_click =
     [ModelLoaded, Render, StartClicked, StartClicked,
      MediaSettled 0 (Stream 1), MediaSettled 0 (Stream 1), Render]"

section \<open>Properties\<close>

lemmas handler_defs =
  render_def scanner_view_def results_view_def truthy_string_def truthy_handle_def
  startDetection_def snapshot_def setInterval_def clearInterval_def detectObjects_begin_def
  poll_guard_def detectObjects_resume_def drawPredictions_def is_plastic_def plasticItems_def
  stopCamera_def stop_track_def resetScanner_def active_tracks_def active_timers_def
  remove_nth_def

lemmas session_defs =
  started_def first_session_def two_polls_def overlapping_session_def after_reset_def
  three_sessions_def double_click_def bottle75_def cup90_def

lemma render_fields [simp]:
  "scannedItem (render w) = scannedItem w"
  "intervals (render w) = intervals w"
  "nextHandle (render w) = nextHandle w"
  "detectionInterval (render w) = detectionInterval w"
  "tracks (render w) = tracks w"
  "awaiting (render w) = awaiting w"
  "requesting (render w) = requesting w"
  "model (render w) = model w"
  "loading (render w) = loading w"
  "error (render w) = error w"
  "console (render w) = console w"
  "rendered (render w) = snapshot w"
  by (simp_all add: render_def)

lemma detecting_eq:
  "detecting =
     \<lparr>scannedItem = None, model = True, loading = False, error = None,
      detectionInterval = Some 1, videoRef = Some \<lparr>srcObject = Some [0]\<rparr>,
      canvasRef = Some [], tracks = [True],
      intervals = [(1, \<lparr>seen_model = True, seen_detectionInterval = None\<rparr>)],
      nextHandle = 2, console = [], awaiting = [], requesting = [], view = Scanner,
      rendered = \<lparr>seen_model = True, seen_detectionInterval = Some 1\<rparr>\<rparr>"
  by (simp add: detecting_def started_def mount_def handler_defs)

lemma remove_nth_subset: "set (remove_nth k xs) \<subseteq> set xs"
  by (auto simp: remove_nth_def dest: in_set_takeD in_set_dropD)

lemma filter_absent: "h \<notin> set (map fst xs) \<Longrightarrow> filter (\<lambda>t. fst t \<noteq> h) xs = xs"
  by (induction xs) auto

lemma start_fields:
  "awaiting (startDetection sc m w) = awaiting w"
  "requesting (startDetection sc m w) = requesting w"
  "rendered (startDetection sc m w) = rendered w"
  "scannedItem (startDetection sc m w) = scannedItem w"
  by (cases m; simp add: startDetection_def setInterval_def clearInterval_def Let_def
        split: option.splits)+

lemma start_stream_timers:
  "intervals (startDetection sc (Stream n) w) =
     (case seen_detectionInterval sc of
        None \<Rightarrow> intervals w
      | Some h \<Rightarrow> if h \<noteq> 0 then filter (\<lambda>t. fst t \<noteq> h) (intervals w) else intervals w)
     @ [(nextHandle w, sc)]"
  "nextHandle (startDetection sc (Stream n) w) = Suc (nextHandle w)"
  "detectionInterval (startDetection sc (Stream n) w) = Some (nextHandle w)"
  by (simp_all add: startDetection_def setInterval_def clearInterval_def truthy_handle_def Let_def
        split: option.splits)

lemma resume_fields:
  "awaiting (detectObjects_resume sc d w) = awaiting w"
  "requesting (detectObjects_resume sc d w) = requesting w"
  "rendered (detectObjects_resume sc d w) = rendered w"
  "nextHandle (detectObjects_resume sc d w) = nextHandle w"
  by (cases d; simp add: detectObjects_resume_def drawPredictions_def stopCamera_def
        clearInterval_def Let_def split: option.splits)+

lemma resume_stale_timers:
  assumes "stale w sc"
  shows "intervals (detectObjects_resume sc d w) = intervals w"
  using assms
  by (cases d)
     (auto simp: stale_def handles_def detectObjects_resume_def drawPredictions_def stopCamera_def
                 clearInterval_def filter_absent Let_def split: option.splits)

lemma resume_handle:
  "detectionInterval (detectObjects_resume sc d w) = detectionInterval w
   \<or> detectionInterval (detectObjects_resume sc d w) = None"
  by (cases d)
     (auto simp: detectObjects_resume_def drawPredictions_def stopCamera_def
                 clearInterval_def Let_def split: option.splits)

subsection \<open>Timers in the reachable states\<close>

text \<open>A poll only ever clears the handle its closure has seen, and that handle was
  cleared by the start that created the closure's timer: no result of a poll cancels a
  timer, and once an item is recorded a timer is active, before and after a reset.\<close>

lemma stale_iff:
  "stale w sc = (\<forall>h. seen_detectionInterval sc = Some h \<longrightarrow> h \<notin> fst ` set (intervals w))"
  by (simp add: stale_def handles_def split: option.splits)

lemma older_iff: "older d n = (\<forall>h. d = Some h \<longrightarrow> h < n)"
  by (simp add: older_def split: option.splits)

lemma stale_same_timers: "intervals v = intervals w \<Longrightarrow> stale v sc = stale w sc"
  by (simp add: stale_iff)

lemma timers_ok_same_timers:
  assumes ok: "timers_ok w"
    and i: "intervals v = intervals w" and n: "nextHandle v = nextHandle w"
    and a: "set (awaiting v) \<subseteq> set (map snd (intervals w) @ awaiting w)"
    and r: "\<forall>s \<in> set (requesting v @ [rendered v]). older (seen_detectionInterval s) (nextHandle w)"
    and d: "older (detectionInterval v) (nextHandle w)"
    and t: "intervals w \<noteq> [] \<or> (awaiting v = [] \<and> scannedItem v = None)"
  shows "timers_ok v"
proof -
  from ok have 0: "0 < nextHandle v"
    by (simp add: timers_ok_def n)
  from ok have 1: "\<forall>h \<in> set (handles v). 0 < h \<and> h < nextHandle v"
    by (simp add: timers_ok_def handles_def i n)
  have 2: "\<forall>s \<in> set (map snd (intervals v) @ awaiting v). stale v s"
  proof
    fix s assume "s \<in> set (map snd (intervals v) @ awaiting v)"
    with a i have "s \<in> set (map snd (intervals w) @ awaiting w)" by auto
    with ok have "stale w s" by (simp add: timers_ok_def)
    then show "stale v s" by (simp add: stale_same_timers [OF i])
  qed
  have 3: "\<forall>s \<in> set (map snd (intervals v) @ awaiting v @ requesting v @ [rendered v]).
             older (seen_detectionInterval s) (nextHandle v)"
  proof
    fix s assume "s \<in> set (map snd (intervals v) @ awaiting v @ requesting v @ [rendered v])"
    then have "s \<in> set (map snd (intervals w) @ awaiting w) \<or> s \<in> set (requesting v @ [rendered v])"
      using a i by auto
    then show "older (seen_detectionInterval s) (nextHandle v)"
    proof
      assume "s \<in> set (map snd (intervals w) @ awaiting w)"
      with ok show ?thesis by (auto simp: timers_ok_def n)
    next
      assume "s \<in> set (requesting v @ [rendered v])"
      with r show ?thesis by (auto simp: n)
    qed
  qed
  from 0 1 2 3 d t show ?thesis by (simp add: timers_ok_def n i)
qed

lemma start_timers_ok:
  assumes "timers_ok w" and "k < length (requesting w)"
  shows "timers_ok (startDetection (requesting w ! k) m
                      (w\<lparr>requesting := remove_nth k (requesting w)\<rparr>))"
proof (cases m)
  case (NoStream msg)
  let ?v = "startDetection (requesting w ! k) m (w\<lparr>requesting := remove_nth k (requesting w)\<rparr>)"
  have v: "?v = w\<lparr>requesting := remove_nth k (requesting w),
                  error := Some (''Camera error: '' @ msg)\<rparr>"
    using NoStream by (simp add: startDetection_def)
  show ?thesis
  proof (rule timers_ok_same_timers [OF assms(1)])
    show "\<forall>s \<in> set (requesting ?v @ [rendered ?v]).
            older (seen_detectionInterval s) (nextHandle w)"
      using assms(1) remove_nth_subset [of k "requesting w"]
      by (auto simp: v timers_ok_def)
    show "intervals w \<noteq> [] \<or> (awaiting ?v = [] \<and> scannedItem ?v = None)"
      using assms(1) by (auto simp: v timers_ok_def)
  qed (use assms(1) in \<open>simp_all add: v timers_ok_def\<close>)
next
  case (Stream n)
  let ?sc = "requesting w ! k"
  let ?u = "w\<lparr>requesting := remove_nth k (requesting w)\<rparr>"
  let ?w = "startDetection ?sc m ?u"
  have a: "0 < nextHandle w"
    and b: "\<forall>h \<in> set (handles w). 0 < h \<and> h < nextHandle w"
    and c: "\<forall>s \<in> set (map snd (intervals w) @ awaiting w). stale w s"
    and d: "\<forall>s \<in> set (map snd (intervals w) @ awaiting w @ requesting w @ [rendered w]).
              older (seen_detectionInterval s) (nextHandle w)"
    using assms(1) by (simp_all add: timers_ok_def)
  from assms(2) d have o: "older (seen_detectionInterval ?sc) (nextHandle w)"
    by simp
  have it: "intervals ?w =
     (case seen_detectionInterval ?sc of
        None \<Rightarrow> intervals w
      | Some h \<Rightarrow> if h \<noteq> 0 then filter (\<lambda>t. fst t \<noteq> h) (intervals w) else intervals w)
     @ [(nextHandle w, ?sc)]"
    using Stream by (simp add: start_stream_timers split: option.splits)
  have i: "fst ` set (intervals ?w) \<subseteq> insert (nextHandle w) (fst ` set (intervals w))"
    by (auto simp: it split: option.splits)
  have n: "nextHandle ?w = Suc (nextHandle w)"
    using Stream by (simp add: start_stream_timers)
  have own: "stale ?w ?sc"
    unfolding stale_iff
  proof (intro allI impI)
    fix h assume s: "seen_detectionInterval ?sc = Some h"
    with o have lt: "h < nextHandle w" by (simp add: older_iff)
    show "h \<notin> fst ` set (intervals ?w)"
    proof (cases "h = 0")
      case True
      with b have "h \<notin> fst ` set (intervals w)" by (auto simp: handles_def)
      with i lt show ?thesis by auto
    next
      case False
      with s lt show ?thesis by (auto simp: it)
    qed
  qed
  have others: "stale ?w s"
    if "stale w s" and "older (seen_detectionInterval s) (nextHandle w)" for s
    unfolding stale_iff
  proof (intro allI impI)
    fix h assume "seen_detectionInterval s = Some h"
    with that have "h \<notin> fst ` set (intervals w)" and "h \<noteq> nextHandle w"
      by (auto simp: stale_iff older_iff)
    with i show "h \<notin> fst ` set (intervals ?w)" by blast
  qed
  have sc_set: "set (map snd (intervals ?w)) \<subseteq> insert ?sc (set (map snd (intervals w)))"
    by (auto simp: it split: option.splits)
  have 1: "\<forall>h \<in> set (handles ?w). 0 < h \<and> h < nextHandle ?w"
  proof
    fix h assume "h \<in> set (handles ?w)"
    then have "h \<in> fst ` set (intervals ?w)" by (simp add: handles_def)
    with i have "h = nextHandle w \<or> h \<in> fst ` set (intervals w)" by blast
    then have "h = nextHandle w \<or> h \<in> set (handles w)" by (simp add: handles_def)
    with a b show "0 < h \<and> h < nextHandle ?w" by (auto simp: n)
  qed
  have 2: "\<forall>s \<in> set (map snd (intervals ?w) @ awaiting ?w). stale ?w s"
  proof
    fix s assume "s \<in> set (map snd (intervals ?w) @ awaiting ?w)"
    then have "s = ?sc \<or> s \<in> set (map snd (intervals w) @ awaiting w)"
      using sc_set by (auto simp: start_fields)
    then show "stale ?w s"
    proof
      assume "s = ?sc" with own show ?thesis by simp
    next
      assume m: "s \<in> set (map snd (intervals w) @ awaiting w)"
      with c have "stale w s" by blast
      moreover from m d have "older (seen_detectionInterval s) (nextHandle w)" by auto
      ultimately show ?thesis by (rule others)
    qed
  qed
  have 3: "\<forall>s \<in> set (map snd (intervals ?w) @ awaiting ?w @ requesting ?w @ [rendered ?w]).
              older (seen_detectionInterval s) (nextHandle ?w)"
  proof
    fix s assume "s \<in> set (map snd (intervals ?w) @ awaiting ?w @ requesting ?w @ [rendered ?w])"
    then have "s = ?sc \<or> s \<in> set (map snd (intervals w) @ awaiting w @ requesting w @ [rendered w])"
      using sc_set remove_nth_subset [of k "requesting w"] by (auto simp: start_fields)
    with o d have "older (seen_detectionInterval s) (nextHandle w)" by blast
    then show "older (seen_detectionInterval s) (nextHandle ?w)"
      by (auto simp: n older_iff)
  qed
  have 4: "older (detectionInterval ?w) (nextHandle ?w)"
    using Stream by (simp add: older_iff start_stream_timers)
  have 5: "intervals ?w \<noteq> []"
    by (simp add: it)
  from 1 2 3 4 5 n show ?thesis by (simp add: timers_ok_def)
qed

lemma resume_timers_ok:
  assumes "timers_ok w" and "k < length (awaiting w)"
  shows "timers_ok (detectObjects_resume (awaiting w ! k) d
                      (w\<lparr>awaiting := remove_nth k (awaiting w)\<rparr>))"
proof -
  let ?u = "w\<lparr>awaiting := remove_nth k (awaiting w)\<rparr>"
  let ?sc = "awaiting w ! k"
  let ?v = "detectObjects_resume ?sc d ?u"
  from assms have "stale w ?sc" by (simp add: timers_ok_def)
  then have "stale ?u ?sc" by (simp add: stale_iff)
  then have i: "intervals ?v = intervals w" by (simp add: resume_stale_timers)
  from assms have ne: "intervals w \<noteq> []" by (auto simp: timers_ok_def)
  have o: "older (detectionInterval ?v) (nextHandle w)"
    using assms(1) resume_handle [of ?sc d ?u] by (auto simp: timers_ok_def older_iff)
  show ?thesis
  proof (rule timers_ok_same_timers [OF assms(1) i])
    show "set (awaiting ?v) \<subseteq> set (map snd (intervals w) @ awaiting w)"
      using remove_nth_subset [of k "awaiting w"] by (auto simp: resume_fields)
    show "\<forall>s \<in> set (requesting ?v @ [rendered ?v]).
            older (seen_detectionInterval s) (nextHandle w)"
      using assms(1) by (simp add: resume_fields timers_ok_def)
  qed (use ne o in \<open>simp_all add: resume_fields\<close>)
qed

lemma step_timers_ok: "timers_ok w \<Longrightarrow> timers_ok (step e w)"
proof (cases e)
  case ModelLoaded
  assume ok: "timers_ok w"
  show ?thesis unfolding ModelLoaded
    by (rule timers_ok_same_timers [OF ok]) (use ok in \<open>auto simp: timers_ok_def\<close>)
next
  case (ModelFailed msg)
  assume ok: "timers_ok w"
  show ?thesis unfolding ModelFailed
    by (rule timers_ok_same_timers [OF ok]) (use ok in \<open>auto simp: timers_ok_def\<close>)
next
  case Render
  assume ok: "timers_ok w"
  show ?thesis unfolding Render
    by (rule timers_ok_same_timers [OF ok]) (use ok in \<open>auto simp: timers_ok_def snapshot_def\<close>)
next
  case StartClicked
  assume ok: "timers_ok w"
  show ?thesis
  proof (cases "view w = Scanner")
    case True
    have "timers_ok (w\<lparr>requesting := requesting w @ [rendered w]\<rparr>)"
      by (rule timers_ok_same_timers [OF ok]) (use ok in \<open>auto simp: timers_ok_def\<close>)
    with True StartClicked show ?thesis by simp
  next
    case False
    with StartClicked ok show ?thesis by simp
  qed
next
  case (MediaSettled k m)
  assume "timers_ok w"
  with MediaSettled start_timers_ok [of w k m] show ?thesis by simp
next
  case (Tick h)
  assume ok: "timers_ok w"
  show ?thesis
  proof (cases "map_of (intervals w) h")
    case None
    with Tick ok show ?thesis by simp
  next
    case (Some sc)
    then have m: "(h, sc) \<in> set (intervals w)" by (rule map_of_SomeD)
    then have s: "sc \<in> snd ` set (intervals w)" and ne: "intervals w \<noteq> []" by force+
    have "timers_ok (detectObjects_begin sc w)"
      by (rule timers_ok_same_timers [OF ok])
         (use ok s ne in \<open>auto simp: timers_ok_def detectObjects_begin_def\<close>)
    with Tick Some show ?thesis by simp
  qed
next
  case (Settled k d)
  assume "timers_ok w"
  with Settled resume_timers_ok [of w k d] show ?thesis by simp
next
  case ResetClicked
  assume ok: "timers_ok w"
  have "timers_ok (resetScanner w)"
    by (rule timers_ok_same_timers [OF ok])
       (use ok in \<open>auto simp: timers_ok_def resetScanner_def Let_def split: option.splits\<close>)
  with ResetClicked ok show ?thesis by simp
qed

lemma reachable_timers_ok: "timers_ok (run es mount)"
proof -
  have r: "timers_ok w \<Longrightarrow> timers_ok (run es w)" for w
    by (induction es arbitrary: w) (simp_all add: step_timers_ok)
  show ?thesis by (rule r) (simp add: timers_ok_def older_def handles_def mount_def)
qed

lemma match_cancels_no_timer:
  "intervals (step (Settled k d) (run es mount)) = intervals (run es mount)"
proof (cases "k < length (awaiting (run es mount))")
  case True
  have ok: "timers_ok (run es mount)" by (rule reachable_timers_ok)
  with True have "stale (run es mount) (awaiting (run es mount) ! k)"
    by (simp add: timers_ok_def)
  then have "stale ((run es mount)\<lparr>awaiting := remove_nth k (awaiting (run es mount))\<rparr>)
               (awaiting (run es mount) ! k)"
    by (simp add: stale_iff)
  from resume_stale_timers [OF this] True show ?thesis by simp
next
  case False
  then show ?thesis by simp
qed

lemma recorded_item_has_timer:
  "scannedItem (run es mount) \<noteq> None \<Longrightarrow> intervals (run es mount) \<noteq> []"
  using reachable_timers_ok [of es] by (auto simp: timers_ok_def)

lemma reset_keeps_timers: "intervals (step ResetClicked w) = intervals w"
  by (simp add: resetScanner_def Let_def split: option.splits)

subsection \<open>The match of a poll\<close>

text \<open>
  C1. A poll whose predictions hold a qualifying entry records its label, stops the
  camera tracks, cancels the polling timer and shows the results, so that no track and
  no timer is left. Evaluated on the first session (model loaded, start clicked, one
  camera track, the first tick finds a bottle with score 0.75): the label is recorded,
  no track is live and the results are shown, but the timer with handle 1 is still
  active. The closure the timer calls belongs to the render in which start was clicked,
  where \<open>detectionInterval\<close> was \<open>null\<close>, so the test of line 160 fails and
  \<open>clearInterval\<close> is not called.
\<close>

theorem match_leaves_timer_running:
  "scannedItem (run first_session mount) = Some ''bottle''
   \<and> active_tracks (run first_session mount) = 0
   \<and> results_view (run first_session mount)
   \<and> map fst (intervals (run first_session mount)) = [1]
   \<and> active_timers (run first_session mount) = 1"
  by (simp add: session_defs mount_def handler_defs)

subsection \<open>No match at or below the threshold\<close>

lemma find_no_plastic:
  assumes "\<forall>p \<in> set predictions. pclass p \<in> set plasticItems \<longrightarrow> score p \<le> 7 / 10"
  shows "find is_plastic predictions = None"
  using assms by (auto simp: find_None_iff is_plastic_def)

text \<open>
  C2. When every prediction with an allow-listed label has a score of at most 0.7, the
  poll that receives the list triggers no match, whatever the state and the closure:
  the scanned item, the camera tracks, the stream of the video, the timers and the
  stored handle are as before.
\<close>

theorem no_match_at_or_below_threshold:
  assumes "\<forall>p \<in> set predictions. pclass p \<in> set plasticItems \<longrightarrow> score p \<le> 7 / 10"
  shows "scannedItem (detectObjects_resume sc (Predictions predictions) w) = scannedItem w
       \<and> tracks (detectObjects_resume sc (Predictions predictions) w) = tracks w
       \<and> videoRef (detectObjects_resume sc (Predictions predictions) w) = videoRef w
       \<and> intervals (detectObjects_resume sc (Predictions predictions) w) = intervals w
       \<and> detectionInterval (detectObjects_resume sc (Predictions predictions) w)
           = detectionInterval w"
  using find_no_plastic [OF assms]
  by (simp add: detectObjects_resume_def drawPredictions_def split: option.splits)

theorem no_match_at_or_below_threshold_witness:
  "pclass chair95 \<notin> set plasticItems \<and> score bottle70 \<le> 7 / 10
   \<and> scannedItem (detectObjects_resume \<lparr>seen_model = True, seen_detectionInterval = None\<rparr>
        (Predictions [chair95, bottle70]) detecting) = None
   \<and> tracks (detectObjects_resume \<lparr>seen_model = True, seen_detectionInterval = None\<rparr>
        (Predictions [chair95, bottle70]) detecting) = [True]
   \<and> map fst (intervals (detectObjects_resume \<lparr>seen_model = True, seen_detectionInterval = None\<rparr>
        (Predictions [chair95, bottle70]) detecting)) = [1]"
proof -
  have h: "\<forall>p \<in> set [chair95, bottle70]. pclass p \<in> set plasticItems \<longrightarrow> score p \<le> 7 / 10"
    by (simp add: chair95_def bottle70_def plasticItems_def)
  have c: "pclass chair95 \<notin> set plasticItems" and b: "score bottle70 \<le> 7 / 10"
    by (simp_all add: chair95_def bottle70_def plasticItems_def)
  show ?thesis
    using c b no_match_at_or_below_threshold
              [OF h, of "\<lparr>seen_model = True, seen_detectionInterval = None\<rparr>" detecting]
    by (simp add: detecting_eq)
qed

subsection \<open>Once matched\<close>

text \<open>
  C3, as stated: within one session a match is triggered at most once, and a further
  qualifying detection does not change the recorded label. After one start, two ticks
  leave two polls suspended; the first result records \<open>bottle\<close>, and the second,
  arriving before the results are rendered, runs the match again and records
  \<open>cup\<close>. Nothing after the \<open>await\<close> of line 146 tests whether an item has been
  recorded.
\<close>

theorem second_result_matches_again:
  "scannedItem (run (two_polls @ [Settled 0 (Predictions [bottle75])]) mount) = Some ''bottle''
   \<and> length (awaiting (run (two_polls @ [Settled 0 (Predictions [bottle75])]) mount)) = 1
   \<and> scannedItem
        (run (two_polls @ [Settled 0 (Predictions [bottle75]), Settled 0 (Predictions [cup90])])
           mount) = Some ''cup''"
  by (simp add: session_defs mount_def handler_defs)

lemma match_reaches_matched:
  assumes "canvasRef w \<noteq> None" and "find is_plastic predictions = Some p"
  shows "matched (render (detectObjects_resume sc (Predictions predictions) w))"
proof -
  from assms(2) have "is_plastic p" by (auto simp: find_Some_iff)
  then have "pclass p \<noteq> []" by (auto simp: is_plastic_def plasticItems_def)
  then show ?thesis using assms
    by (auto simp: matched_def detectObjects_resume_def drawPredictions_def render_def
                   scanner_view_def stopCamera_def clearInterval_def truthy_string_def Let_def
             split: option.splits)
qed

lemma step_poll_matched:
  assumes "matched w" and "is_poll e \<or> e = Render"
  shows "matched (step e w) \<and> scannedItem (step e w) = scannedItem w
       \<and> tracks (step e w) = tracks w \<and> intervals (step e w) = intervals w
       \<and> detectionInterval (step e w) = detectionInterval w"
proof (cases e)
  case Render
  then show ?thesis using assms(1)
    by (simp add: matched_def render_def scanner_view_def)
next
  case (Tick h)
  then show ?thesis using assms(1)
    by (auto simp: matched_def detectObjects_begin_def poll_guard_def split: option.splits)
next
  case (Settled k d)
  then show ?thesis using assms(1)
    by (cases d)
       (auto simp: matched_def detectObjects_resume_def drawPredictions_def split: option.splits)
qed (use assms(2) in \<open>simp_all add: is_poll_def\<close>)

text \<open>
  C3, amended. Once an item is recorded and the results have been rendered (the video
  and the canvas are gone), no tick, no result delivered to a poll, qualifying or not,
  and no further render triggers the match again: over any sequence of such events the
  state stays so and the recorded label, the tracks, the timers and the stored handle
  do not change.
\<close>

theorem matched_polls_do_nothing:
  assumes "matched w" and "\<forall>e \<in> set es. is_poll e \<or> e = Render"
  shows "matched (run es w) \<and> scannedItem (run es w) = scannedItem w
       \<and> tracks (run es w) = tracks w \<and> intervals (run es w) = intervals w
       \<and> detectionInterval (run es w) = detectionInterval w"
  using assms
proof (induction es arbitrary: w)
  case Nil
  then show ?case by simp
next
  case (Cons e es)
  from Cons.prems have s:
    "matched (step e w) \<and> scannedItem (step e w) = scannedItem w
     \<and> tracks (step e w) = tracks w \<and> intervals (step e w) = intervals w
     \<and> detectionInterval (step e w) = detectionInterval w"
    using step_poll_matched [of w e] by simp
  with Cons.IH [of "step e w"] Cons.prems show ?case by simp
qed

theorem matched_polls_do_nothing_witness:
  "matched (run overlapping_session mount)
   \<and> is_poll (Tick 1) \<and> is_poll (Settled 0 (Predictions [cup90])) \<and> is_plastic cup90
   \<and> length (awaiting (run overlapping_session mount)) = 1
   \<and> scannedItem (run [Tick 1, Settled 0 (Predictions [cup90]), Render]
                    (run overlapping_session mount)) = Some ''bottle''"
proof -
  have m: "matched (run overlapping_session mount)"
    by (simp add: matched_def session_defs mount_def handler_defs)
  have p: "\<forall>e \<in> set [Tick 1, Settled 0 (Predictions [cup90]), Render]. is_poll e \<or> e = Render"
    by (simp add: is_poll_def)
  have t: "is_poll (Tick 1)" and r: "is_poll (Settled 0 (Predictions [cup90]))"
    by (simp_all add: is_poll_def)
  have a: "length (awaiting (run overlapping_session mount)) = 1"
    by (simp add: session_defs mount_def handler_defs)
  have s: "scannedItem (run overlapping_session mount) = Some ''bottle''"
    by (simp add: session_defs mount_def handler_defs)
  have q: "is_plastic cup90"
    by (simp add: is_plastic_def plasticItems_def cup90_def)
  from matched_polls_do_nothing [OF m p] m t r a s q show ?thesis by simp
qed

subsection \<open>Timers\<close>

text \<open>
  C4. At most one polling timer is active at any time; no sequence of starts, matches
  and resets gives two. Evaluated on two sessions that each end in a match and a
  reset, followed by a third start: the timers with handles 2 and 3 are both active.
  The poll of the second session sees the handle 1 of the first session, clears that
  one and sets the stored handle to \<open>null\<close>, so the third start finds nothing to
  clear.
\<close>

theorem third_start_two_timers:
  "map fst (intervals (run three_sessions mount)) = [2, 3]
   \<and> active_timers (run three_sessions mount) = 2"
  by (simp add: session_defs mount_def handler_defs)

text \<open>Two clicks on the start button before the camera answers give two timers as
  well: both calls are closures of the same render.\<close>

lemma double_click_two_timers:
  "map fst (intervals (run double_click mount)) = [1, 2]"
  by (simp add: session_defs mount_def handler_defs)

text \<open>
  C5, as stated: a tick that finds the previous poll still suspended is skipped.
  After two ticks of the timer with no result in between, two polls are suspended.
\<close>

theorem second_tick_not_skipped:
  "length (awaiting (run (started @ [Tick 1]) mount)) = 1
   \<and> length (awaiting (run two_polls mount)) = 2"
  by (simp add: session_defs mount_def handler_defs)

text \<open>
  C5, amended. Polling is re-entrant: every tick of an active timer whose closure has
  a model, while the video and the canvas are mounted, starts a poll, however many
  polls are still suspended.
\<close>

theorem tick_starts_poll:
  assumes "map_of (intervals w) h = Some sc" and "poll_guard sc w"
  shows "awaiting (step (Tick h) w) = awaiting w @ [sc]"
  using assms by (simp add: detectObjects_begin_def)

theorem tick_starts_poll_witness:
  "map_of (intervals (step (Tick 1) detecting)) 1
     = Some \<lparr>seen_model = True, seen_detectionInterval = None\<rparr>
   \<and> poll_guard \<lparr>seen_model = True, seen_detectionInterval = None\<rparr> (step (Tick 1) detecting)
   \<and> length (awaiting (step (Tick 1) detecting)) = 1
   \<and> length (awaiting (step (Tick 1) (step (Tick 1) detecting))) = 2"
proof -
  have i: "map_of (intervals (step (Tick 1) detecting)) 1
             = Some \<lparr>seen_model = True, seen_detectionInterval = None\<rparr>"
    by (simp add: detecting_eq handler_defs)
  have g: "poll_guard \<lparr>seen_model = True, seen_detectionInterval = None\<rparr> (step (Tick 1) detecting)"
    by (simp add: detecting_eq handler_defs)
  have a: "length (awaiting (step (Tick 1) detecting)) = 1"
    by (simp add: detecting_eq handler_defs)
  from tick_starts_poll [OF i g] i g a show ?thesis by simp
qed

subsection \<open>Errors\<close>

text \<open>
  C6. When the camera is denied or missing, the start handler stores the error message
  for display and nothing else, whatever its closure has seen: no timer is scheduled,
  no item recorded, no track created, and what is on the page, the scanner view with
  its start button, stays.
\<close>

theorem camera_error_surfaced:
  assumes "k < length (requesting w)"
  shows "error (step (MediaSettled k (NoStream msg)) w) = Some (''Camera error: '' @ msg)
       \<and> intervals (step (MediaSettled k (NoStream msg)) w) = intervals w
       \<and> detectionInterval (step (MediaSettled k (NoStream msg)) w) = detectionInterval w
       \<and> scannedItem (step (MediaSettled k (NoStream msg)) w) = scannedItem w
       \<and> tracks (step (MediaSettled k (NoStream msg)) w) = tracks w
       \<and> view (step (MediaSettled k (NoStream msg)) w) = view w
       \<and> scanner_view (step (MediaSettled k (NoStream msg)) w) = scanner_view w
       \<and> startDetection sc (NoStream msg) w = w\<lparr>error := Some (''Camera error: '' @ msg)\<rparr>"
  using assms by (simp add: startDetection_def scanner_view_def)

theorem camera_error_surfaced_witness:
  "length (requesting asking) = 1
   \<and> error (step (MediaSettled 0 (NoStream ''Permission denied'')) asking)
       = Some ''Camera error: Permission denied''
   \<and> intervals (step (MediaSettled 0 (NoStream ''Permission denied'')) asking) = []
   \<and> scannedItem (step (MediaSettled 0 (NoStream ''Permission denied'')) asking) = None
   \<and> view (step (MediaSettled 0 (NoStream ''Permission denied'')) asking) = Scanner"
proof -
  have l: "length (requesting asking) = 1"
    and i: "intervals asking = []"
    and s: "scannedItem asking = None"
    and v: "view asking = Scanner"
    by (simp_all add: asking_def mount_def handler_defs)
  from l have k: "0 < length (requesting asking)"
    by simp
  from camera_error_surfaced [OF k, where msg = "''Permission denied''"] l i s v
  show ?thesis by (simp del: step.simps)
qed

text \<open>
  C7. When the detection fails during a poll, the error is printed to the console and
  nothing else changes: the timers, the camera tracks, the stream of the video, the
  scanned item and the stored handle are as before, and the guard of the next poll
  gives what it gave.
\<close>

theorem detection_failure_swallowed:
  "console (detectObjects_resume sc (Failure err) w) = console w @ [''Detection error: '' @ err]
   \<and> intervals (detectObjects_resume sc (Failure err) w) = intervals w
   \<and> tracks (detectObjects_resume sc (Failure err) w) = tracks w
   \<and> videoRef (detectObjects_resume sc (Failure err) w) = videoRef w
   \<and> scannedItem (detectObjects_resume sc (Failure err) w) = scannedItem w
   \<and> detectionInterval (detectObjects_resume sc (Failure err) w) = detectionInterval w
   \<and> poll_guard sc' (detectObjects_resume sc (Failure err) w) = poll_guard sc' w"
  by (simp add: detectObjects_resume_def poll_guard_def)

subsection \<open>Which label is recorded\<close>

text \<open>
  C8. Of several qualifying predictions the first in the order of the list is the one
  whose label is recorded: when no entry before \<open>p\<close> qualifies and \<open>p\<close> does, the
  poll (with a canvas to draw on) records the label of \<open>p\<close>, whatever follows.
\<close>

theorem first_qualifying_recorded:
  assumes "canvasRef w \<noteq> None" and "\<forall>q \<in> set xs. \<not> is_plastic q" and "is_plastic p"
  shows "scannedItem (detectObjects_resume sc (Predictions (xs @ p # ys)) w) = Some (pclass p)"
proof -
  have "find is_plastic (xs @ p # ys) = Some p"
    using assms(2,3) by (induction xs) auto
  then show ?thesis using assms(1)
    by (auto simp: detectObjects_resume_def drawPredictions_def stopCamera_def clearInterval_def
                   Let_def
             split: option.splits)
qed

theorem first_qualifying_recorded_witness:
  "canvasRef detecting \<noteq> None
   \<and> \<not> is_plastic chair95 \<and> \<not> is_plastic bottle70
   \<and> is_plastic cup90 \<and> is_plastic bottle75
   \<and> scannedItem (detectObjects_resume \<lparr>seen_model = True, seen_detectionInterval = None\<rparr>
        (Predictions [chair95, bottle70, cup90, bottle75]) detecting) = Some ''cup''"
proof -
  have c: "canvasRef detecting \<noteq> None" by (simp add: detecting_eq)
  have n: "\<forall>q \<in> set [chair95, bottle70]. \<not> is_plastic q"
    by (simp add: is_plastic_def plasticItems_def chair95_def bottle70_def)
  have q: "is_plastic cup90" and b: "is_plastic bottle75"
    by (simp_all add: is_plastic_def plasticItems_def cup90_def bottle75_def)
  from first_qualifying_recorded [OF c n q, of "\<lparr>seen_model = True, seen_detectionInterval = None\<rparr>"
         "[bottle75]"] c n q b
  show ?thesis by (simp add: cup90_def)
qed

subsection \<open>Reset\<close>

text \<open>The handler clears the label and the canvas it finds; the next render shows the
  scanner view with an empty canvas. Timers and tracks are not touched, so after any
  match the state reached by a reset has an active timer.\<close>

lemma reset_shows_empty_scanner:
  assumes "\<not> loading w"
  shows "scannedItem (render (resetScanner w)) = None
       \<and> canvasRef (render (resetScanner w)) = Some []
       \<and> videoRef (render (resetScanner w)) \<noteq> None
       \<and> view (render (resetScanner w)) = Scanner
       \<and> intervals (render (resetScanner w)) = intervals w
       \<and> tracks (render (resetScanner w)) = tracks w"
  using assms
  by (auto simp: resetScanner_def render_def scanner_view_def truthy_string_def Let_def
           split: option.splits)

lemma reset_never_idle:
  assumes "scannedItem (run es mount) \<noteq> None"
  shows "intervals (run (es @ [ResetClicked, Render]) mount) \<noteq> []"
proof -
  have r: "run (xs @ ys) w = run ys (run xs w)" for xs ys w
    by (induction xs arbitrary: w) simp_all
  have "intervals (run (es @ [ResetClicked, Render]) mount)
          = intervals (step ResetClicked (run es mount))"
    by (simp add: r del: step.simps(8))
  also have "\<dots> = intervals (run es mount)"
    by (rule reset_keeps_timers)
  finally show ?thesis using recorded_item_has_timer [OF assms] by simp
qed

text \<open>
  C9. A reset clears the recorded label and the overlay and returns to the idle state,
  from which start can be called again. Evaluated on the first session followed by a
  click on the reset button: the label is absent, the canvas is empty and the scanner
  view is shown, but the state is not idle. The timer with handle 1, which the match
  did not cancel, is still active, and its next tick starts a poll on the new video
  though the start button has not been clicked.
\<close>

theorem reset_leaves_timer_polling:
  "scannedItem (run after_reset mount) = None
   \<and> canvasRef (run after_reset mount) = Some []
   \<and> view (run after_reset mount) = Scanner
   \<and> requesting (run after_reset mount) = []
   \<and> map fst (intervals (run after_reset mount)) = [1]
   \<and> active_timers (run after_reset mount) = 1
   \<and> length (awaiting (run (after_reset @ [Tick 1]) mount)) = 1"
  by (simp add: session_defs mount_def handler_defs)

subsection \<open>The recorded label and the dictionary\<close>

lemma resume_item_ok: "item_ok w \<Longrightarrow> item_ok (detectObjects_resume sc d w)"
proof (cases d)
  case (Predictions ps)
  assume ok: "item_ok w"
  show ?thesis
  proof (cases "find is_plastic ps")
    case None
    with ok Predictions show ?thesis
      by (auto simp: item_ok_def detectObjects_resume_def drawPredictions_def split: option.splits)
  next
    case (Some p)
    then have "pclass p \<in> set plasticItems" by (auto simp: find_Some_iff is_plastic_def)
    with ok Predictions Some show ?thesis
      by (auto simp: item_ok_def detectObjects_resume_def drawPredictions_def stopCamera_def
                     clearInterval_def Let_def split: option.splits)
  qed
qed (simp add: item_ok_def detectObjects_resume_def)

lemma step_item_ok: "item_ok w \<Longrightarrow> item_ok (step e w)"
proof (cases e)
  case (MediaSettled k m)
  assume "item_ok w"
  with MediaSettled show ?thesis
    by (simp add: item_ok_def start_fields)
next
  case (Tick h)
  assume "item_ok w"
  with Tick show ?thesis
    by (auto simp: item_ok_def detectObjects_begin_def split: option.splits)
next
  case (Settled k d)
  assume ok: "item_ok w"
  have "item_ok (w\<lparr>awaiting := remove_nth k (awaiting w)\<rparr>)"
    using ok by (simp add: item_ok_def)
  from resume_item_ok [OF this] Settled ok show ?thesis
    by simp
next
  case ResetClicked
  assume "item_ok w"
  with ResetClicked show ?thesis
    by (auto simp: item_ok_def resetScanner_def Let_def split: option.splits)
qed (simp_all add: item_ok_def)

lemma run_item_ok: "item_ok w \<Longrightarrow> item_ok (run es w)"
  by (induction es arbitrary: w) (simp_all add: step_item_ok)

lemma PROJECTS_plastic: "l \<in> set plasticItems \<Longrightarrow> \<exists>ps. PROJECTS l = Some ps \<and> ps \<noteq> []"
  by (auto simp: plasticItems_def PROJECTS_def)

text \<open>
  C10. In every state the component can reach, a recorded scanned item is
  \<open>bottle\<close> or \<open>cup\<close>, a key of the dictionary, and its lookup gives a list of
  projects that is not empty.
\<close>

theorem scanned_item_has_projects:
  assumes "scannedItem (run es mount) = Some l"
  shows "(l = ''bottle'' \<or> l = ''cup'') \<and> (\<exists>ps. PROJECTS l = Some ps \<and> ps \<noteq> [])"
proof -
  have "item_ok mount" by (simp add: item_ok_def mount_def)
  from run_item_ok [OF this, of es] assms have l: "l \<in> set plasticItems"
    by (simp add: item_ok_def)
  with PROJECTS_plastic [OF l] show ?thesis by (auto simp: plasticItems_def)
qed

theorem scanned_item_has_projects_witness:
  "scannedItem (run first_session mount) = Some ''bottle''
   \<and> (\<exists>ps. PROJECTS ''bottle'' = Some ps \<and> ps \<noteq> [])"
proof -
  have s: "scannedItem (run first_session mount) = Some ''bottle''"
    by (simp add: session_defs mount_def handler_defs)
  from scanned_item_has_projects [OF s] s show ?thesis by simp
qed

end
